theory Spec2Isabelle
  imports Complex_Main
begin

section \<open>Errors\<close>

text \<open>
  The exceptions the modelled code can raise: an index beyond an array's length, and
  the allocation of an array with a negative length.
\<close>

datatype error = IndexError | ValueError

section \<open>Numeric vectors\<close>

text \<open>
  A state is a numpy vector of floats, modelled as a list of reals. The arithmetic of the
  source is elementwise on vectors of one shape; the theorems below that depend on it
  carry the equal-length condition, since numpy's shape errors and broadcasting are not
  part of the model.
\<close>

type_synonym state = "real list"

text \<open>A line segment: a pair of end points (a two-row array in the source).\<close>

type_synonym segment = "state \<times> state"

definition vsub :: "state \<Rightarrow> state \<Rightarrow> state" where
  "vsub a b = map2 (\<lambda>u v. u - v) a b"

definition vadd :: "state \<Rightarrow> state \<Rightarrow> state" where
  "vadd a b = map2 (\<lambda>u v. u + v) a b"

definition vscale :: "real \<Rightarrow> state \<Rightarrow> state" where
  "vscale c a = map (\<lambda>u. c * u) a"

text \<open>
  \<^verbatim>\<open>np.linalg.norm\<close>: the Euclidean norm, here with the exact square root of the
  reals. The rounding, underflow and overflow of float64 are not modelled, so nothing
  below is stated of the code about an exact distance.
\<close>

definition linalg_norm :: "state \<Rightarrow> real" where
  "linalg_norm a = sqrt (sum_list (map (\<lambda>u. u * u) a))"

text \<open>
  The running minimum of \<^verbatim>\<open>find_nearest\<close> starts at \<^verbatim>\<open>float('inf')\<close>.
\<close>

datatype threshold = Infinity | Finite real

fun below :: "real \<Rightarrow> threshold \<Rightarrow> bool" where
  "below d Infinity = True"
| "below d (Finite t) = (d < t)"

section \<open>GeometricRRT\<close>

text \<open>
  \<^verbatim>\<open>GeometricRRT.find_nearest\<close>: the loop over all rows of \<open>V\<close>, skipping the rows of
  norm zero.
\<close>

function GeometricRRT_find_nearest_loop ::
  "state list \<Rightarrow> state \<Rightarrow> nat \<Rightarrow> threshold \<Rightarrow> nat \<Rightarrow> nat" where
  "GeometricRRT_find_nearest_loop V x i thr nearidx =
     (if i < length V then
        (if linalg_norm (V ! i) = 0
         then GeometricRRT_find_nearest_loop V x (i + 1) thr nearidx
         else (let dist = linalg_norm (vsub (V ! i) x) in
               if below dist thr \<and> thr \<noteq> Finite 0
               then GeometricRRT_find_nearest_loop V x (i + 1) (Finite dist) i
               else GeometricRRT_find_nearest_loop V x (i + 1) thr nearidx))
      else nearidx)"
  by pat_completeness auto
termination
  by (relation "measure (\<lambda>(V, x, i, thr, nearidx). length V - i)") auto

declare GeometricRRT_find_nearest_loop.simps [simp del]

definition GeometricRRT_find_nearest :: "state list \<Rightarrow> state \<Rightarrow> nat" where
  "GeometricRRT_find_nearest V x = GeometricRRT_find_nearest_loop V x 0 Infinity 0"

text \<open>
  \<^verbatim>\<open>GeometricRRT.steer_towards\<close>, over the reals. Where the norm is zero and not below
  \<open>eps\<close> (only for \<open>eps \<le> 0\<close>), numpy divides by zero without raising and yields nan
  or an infinity; the quotient of the reals is 0 there.
\<close>

definition GeometricRRT_steer_towards :: "state \<Rightarrow> state \<Rightarrow> real \<Rightarrow> state" where
  "GeometricRRT_steer_towards x y eps =
     (let mag = linalg_norm (vsub y x) in
      if mag < eps then y else vadd x (vscale (eps / mag) (vsub y x)))"

text \<open>
  The same method with the arithmetic of numpy left open: the norm, the difference and
  the sum of two arrays, the multiple of an array, the division and the comparison are
  the fields of \<open>ar\<close>. What is proved for every \<open>ar\<close> holds of float64 as it does of the
  reals; \<open>real_arith\<close> is the arithmetic used above.
\<close>

record 'f array_arith =
  norm_of :: "'f list \<Rightarrow> 'f"
  minus_of :: "'f list \<Rightarrow> 'f list \<Rightarrow> 'f list"
  plus_of :: "'f list \<Rightarrow> 'f list \<Rightarrow> 'f list"
  times_of :: "'f \<Rightarrow> 'f list \<Rightarrow> 'f list"
  divide_of :: "'f \<Rightarrow> 'f \<Rightarrow> 'f"
  less_of :: "'f \<Rightarrow> 'f \<Rightarrow> bool"

definition GeometricRRT_steer_towards_in ::
  "'f array_arith \<Rightarrow> 'f list \<Rightarrow> 'f list \<Rightarrow> 'f \<Rightarrow> 'f list" where
  "GeometricRRT_steer_towards_in ar x y eps =
     (let mag = norm_of ar (minus_of ar y x) in
      if less_of ar mag eps then y
      else plus_of ar x (times_of ar (divide_of ar eps mag) (minus_of ar y x)))"

definition real_arith :: "real array_arith" where
  "real_arith =
     \<lparr>norm_of = linalg_norm, minus_of = vsub, plus_of = vadd, times_of = vscale,
      divide_of = (\<lambda>a b. a / b), less_of = (\<lambda>a b. a < b)\<rparr>"

text \<open>
  \<^verbatim>\<open>GeometricRRT.is_free_motion\<close>. The segment intersection test
  \<^verbatim>\<open>line_line_intersection\<close> comes from a module outside the source and is the
  parameter \<open>lli\<close>.
\<close>

fun GeometricRRT_is_free_motion ::
  "(segment \<Rightarrow> segment \<Rightarrow> bool) \<Rightarrow> segment list \<Rightarrow> state \<Rightarrow> state \<Rightarrow> bool" where
  "GeometricRRT_is_free_motion lli [] x1 x2 = True"
| "GeometricRRT_is_free_motion lli (line # rest) x1 x2 =
     (if lli (x1, x2) line then False else GeometricRRT_is_free_motion lli rest x1 x2)"


section \<open>DubinsRRT\<close>

text \<open>
  A state of the Dubins car is a triple: position and heading. \<^verbatim>\<open>path_length\<close> comes
  from the \<^verbatim>\<open>dubins\<close> package and is a parameter, applied to the turning radius.
\<close>

type_synonym dubins_state = "real \<times> real \<times> real"

function DubinsRRT_find_nearest_loop ::
  "(dubins_state \<Rightarrow> dubins_state \<Rightarrow> real \<Rightarrow> real) \<Rightarrow> real \<Rightarrow>
   dubins_state list \<Rightarrow> dubins_state \<Rightarrow> nat \<Rightarrow> real \<Rightarrow> nat \<Rightarrow> nat" where
  "DubinsRRT_find_nearest_loop path_length turning_radius V x i thr nearidx =
     (if i < length V then
        (case V ! i of (v0, v1, v2) \<Rightarrow>
           if v0 = 0 \<and> v1 = 0 \<and> v2 = 0
           then DubinsRRT_find_nearest_loop path_length turning_radius V x (i + 1) thr nearidx
           else (let path_dist = path_length (V ! i) x turning_radius in
                 if path_dist < thr
                 then DubinsRRT_find_nearest_loop path_length turning_radius V x (i + 1)
                        path_dist i
                 else DubinsRRT_find_nearest_loop path_length turning_radius V x (i + 1)
                        thr nearidx))
      else nearidx)"
  by pat_completeness auto
termination
  by (relation "measure (\<lambda>(pl, tr, V, x, i, thr, nearidx). length V - i)") auto

declare DubinsRRT_find_nearest_loop.simps [simp del]

definition DubinsRRT_find_nearest ::
  "(dubins_state \<Rightarrow> dubins_state \<Rightarrow> real \<Rightarrow> real) \<Rightarrow> real \<Rightarrow>
   dubins_state list \<Rightarrow> dubins_state \<Rightarrow> nat" where
  "DubinsRRT_find_nearest path_length turning_radius V x =
     DubinsRRT_find_nearest_loop path_length turning_radius V x 0 10000 0"

section \<open>The planning problem and its collaborators\<close>

record problem =
  statespace_lo :: state
  statespace_hi :: state
  x_init :: state
  x_goal :: state
  obstacles :: "segment list"

text \<open>
  The three methods a subclass of \<^verbatim>\<open>RRT\<close> overrides; \<^verbatim>\<open>solve\<close> calls them through
  \<^verbatim>\<open>self\<close>.
\<close>

record dynamics =
  is_free_motion :: "segment list \<Rightarrow> state \<Rightarrow> state \<Rightarrow> bool"
  find_nearest :: "state list \<Rightarrow> state \<Rightarrow> nat"
  steer_towards :: "state \<Rightarrow> state \<Rightarrow> real \<Rightarrow> state"

definition GeometricRRT :: "(segment \<Rightarrow> segment \<Rightarrow> bool) \<Rightarrow> dynamics" where
  "GeometricRRT lli =
     \<lparr>is_free_motion = GeometricRRT_is_free_motion lli,
      find_nearest = GeometricRRT_find_nearest,
      steer_towards = GeometricRRT_steer_towards\<rparr>"

text \<open>
  The global generator of \<^verbatim>\<open>np.random\<close>, as a state \<open>'r\<close> with the two draws the
  source makes: \<^verbatim>\<open>np.random.uniform(0,1)\<close> and
  \<^verbatim>\<open>np.random.uniform(lo, hi, shape)\<close>. Each returns the value drawn and the
  generator's next state.
\<close>

record 'r random_source =
  uniform01 :: "'r \<Rightarrow> real \<times> 'r"
  uniform_box :: "state \<Rightarrow> state \<Rightarrow> nat \<Rightarrow> 'r \<Rightarrow> state \<times> 'r"

section \<open>Path reconstruction\<close>

text \<open>
  The inner function \<^verbatim>\<open>soln_path\<close> of \<^verbatim>\<open>solve\<close>. Its \<^verbatim>\<open>while\<close> loop follows the
  parent links and need not end on every \<open>P\<close>: not returning is the value \<open>None\<close>.
\<close>

partial_function (option) soln_path_walk ::
  "state list \<Rightarrow> int list \<Rightarrow> int \<Rightarrow> state list \<Rightarrow> (error + state list) option" where
  "soln_path_walk V P stateidx entire_path =
     (if stateidx > - 1 then
        (if nat stateidx < length V then
           (if nat stateidx < length P
            then soln_path_walk V P (P ! nat stateidx) (entire_path @ [V ! nat stateidx])
            else Some (Inl IndexError))
         else Some (Inl IndexError))
      else Some (Inr entire_path))"

text \<open>The second loop: \<^verbatim>\<open>for idx in xrange(pathlen,0,-1)\<close>, appending \<^verbatim>\<open>entire_path[idx-1]\<close>.\<close>

fun soln_path_build :: "state list \<Rightarrow> nat \<Rightarrow> state list \<Rightarrow> state list" where
  "soln_path_build entire_path 0 acc = acc"
| "soln_path_build entire_path (Suc j) acc =
     soln_path_build entire_path j (acc @ [entire_path ! j])"

definition soln_path :: "state list \<Rightarrow> int list \<Rightarrow> int \<Rightarrow> (error + state list) option" where
  "soln_path V P lastidx =
     (case soln_path_walk V P lastidx [] of
        None \<Rightarrow> None
      | Some (Inl e) \<Rightarrow> Some (Inl e)
      | Some (Inr entire_path) \<Rightarrow>
          Some (Inr (soln_path_build entire_path (length entire_path) [])))"

section \<open>The search driver\<close>

record solve_result =
  tree_V :: "state list"
  tree_P :: "int list"
  tree_n :: nat
  success :: bool
  solution_path :: "state list"

text \<open>
  One pass of the body of the \<^verbatim>\<open>for\<close> loop of \<^verbatim>\<open>solve\<close>, up to the goal test: the
  two draws, the nearest neighbour, the steering, and the insertion at row \<open>k\<close> when the
  motion is free. The Boolean tells whether the inserted state equals the goal.
\<close>

definition rrt_iteration ::
  "dynamics \<Rightarrow> 'r random_source \<Rightarrow> problem \<Rightarrow> real \<Rightarrow> real \<Rightarrow> nat \<Rightarrow>
   state list \<Rightarrow> int list \<Rightarrow> 'r \<Rightarrow> (error + state list \<times> int list \<times> bool) \<times> 'r" where
  "rrt_iteration dyn rs prob eps goal_bias k V P r =
     (let (z, r1) = uniform01 rs r;
          (u, r2) = uniform_box rs (statespace_lo prob) (statespace_hi prob)
                      (length (x_init prob)) r1;
          xrand = (if z < goal_bias then x_goal prob else u);
          xnearidx = find_nearest dyn V xrand
      in if xnearidx < length V then
           (let xnew = steer_towards dyn (V ! xnearidx) xrand eps in
            if is_free_motion dyn (obstacles prob) (V ! xnearidx) xnew then
              (if k < length V \<and> k < length P
               then (Inr (V[k := xnew], P[k := int xnearidx], xnew = x_goal prob), r2)
               else (Inl IndexError, r2))
            else (Inr (V, P, False), r2))
         else (Inl IndexError, r2))"

text \<open>
  The loop \<^verbatim>\<open>for k in range(1,max_iters)\<close> with its \<^verbatim>\<open>break\<close>. The result is the tree,
  the success flag and the solution path, with the generator's state at the end.
\<close>

function rrt_loop ::
  "dynamics \<Rightarrow> 'r random_source \<Rightarrow> problem \<Rightarrow> real \<Rightarrow> nat \<Rightarrow> real \<Rightarrow> nat \<Rightarrow>
   state list \<Rightarrow> int list \<Rightarrow> 'r \<Rightarrow>
   ((error + state list \<times> int list \<times> bool \<times> state list) \<times> 'r) option" where
  "rrt_loop dyn rs prob eps max_iters goal_bias k V P r =
     (if k < max_iters then
        (case rrt_iteration dyn rs prob eps goal_bias k V P r of
           (Inl e, r') \<Rightarrow> Some (Inl e, r')
         | (Inr (V', P', reached), r') \<Rightarrow>
             if reached then
               (case soln_path V' P' (int k) of
                  None \<Rightarrow> None
                | Some (Inl e) \<Rightarrow> Some (Inl e, r')
                | Some (Inr path) \<Rightarrow> Some (Inr (V', P', True, path), r'))
             else rrt_loop dyn rs prob eps max_iters goal_bias (k + 1) V' P' r')
      else Some (Inr (V, P, False, []), r))"
  by pat_completeness auto
termination
  by (relation "measure (\<lambda>(dyn, rs, prob, eps, max_iters, goal_bias, k, V, P, r). max_iters - k)")
    auto

declare rrt_loop.simps [simp del]

text \<open>
  \<^verbatim>\<open>RRT.solve\<close>, up to the plotting. \<^verbatim>\<open>np.zeros\<close> raises on a negative length, and
  writing the root into an array of no rows raises. The counter \<open>n\<close> is assigned once.
\<close>

definition solve ::
  "dynamics \<Rightarrow> 'r random_source \<Rightarrow> problem \<Rightarrow> real \<Rightarrow> int \<Rightarrow> real \<Rightarrow> 'r \<Rightarrow>
   ((error + solve_result) \<times> 'r) option" where
  "solve dyn rs prob eps max_iters goal_bias r =
     (let state_dim = length (x_init prob) in
      if max_iters < 0 then Some (Inl ValueError, r)
      else if max_iters = 0 then Some (Inl IndexError, r)
      else
        (let V = (replicate (nat max_iters) (replicate state_dim 0))[0 := x_init prob];
             n = 1;
             P = replicate (nat max_iters) (- 1)
         in case rrt_loop dyn rs prob eps (nat max_iters) goal_bias 1 V P r of
              None \<Rightarrow> None
            | Some (Inl e, r') \<Rightarrow> Some (Inl e, r')
            | Some (Inr (V', P', succ, path), r') \<Rightarrow>
                Some (Inr \<lparr>tree_V = V', tree_P = P', tree_n = n, success = succ,
                           solution_path = path\<rparr>, r')))"

section \<open>Notions used to state the properties\<close>

text \<open>
  A row of the tree is occupied when it is the root or has a parent: \<^verbatim>\<open>plot_tree\<close>
  tells the rows of the tree by the same test \<^verbatim>\<open>P[i] >= 0\<close>.
\<close>

definition occupied :: "int list \<Rightarrow> nat \<Rightarrow> bool" where
  "occupied P i \<longleftrightarrow> i = 0 \<or> 0 \<le> P ! i"

text \<open>
  The vectors of the problem have one dimension, and the box sample has it too: the
  inputs on which numpy raises no shape error.
\<close>

definition well_shaped :: "'r random_source \<Rightarrow> problem \<Rightarrow> bool" where
  "well_shaped rs prob \<longleftrightarrow>
     length (statespace_lo prob) = length (x_init prob) \<and>
     length (statespace_hi prob) = length (x_init prob) \<and>
     length (x_goal prob) = length (x_init prob) \<and>
     (\<forall>r. length (fst (uniform_box rs (statespace_lo prob) (statespace_hi prob)
                          (length (x_init prob)) r)) = length (x_init prob))"

text \<open>The generator after the two draws of one iteration: the coin, then the box sample.\<close>

definition draw_round :: "'r random_source \<Rightarrow> problem \<Rightarrow> 'r \<Rightarrow> 'r" where
  "draw_round rs prob r =
     snd (uniform_box rs (statespace_lo prob) (statespace_hi prob) (length (x_init prob))
            (snd (uniform01 rs r)))"

text \<open>The values a generator delivers in its first \<open>j\<close> rounds.\<close>

fun draws :: "'r random_source \<Rightarrow> problem \<Rightarrow> nat \<Rightarrow> 'r \<Rightarrow> (real \<times> state) list" where
  "draws rs prob 0 r = []"
| "draws rs prob (Suc j) r =
     (fst (uniform01 rs r),
      fst (uniform_box rs (statespace_lo prob) (statespace_hi prob) (length (x_init prob))
             (snd (uniform01 rs r))))
     # draws rs prob j (draw_round rs prob r)"

text \<open>
  A generator for concrete runs: its state counts the draws made, the coin of draw \<open>i\<close>
  is \<open>zf i\<close>, and the box sample of draw \<open>i\<close> lies at the fraction \<open>uf i\<close> of each side.
\<close>

definition scripted_source :: "(nat \<Rightarrow> real) \<Rightarrow> (nat \<Rightarrow> real) \<Rightarrow> nat random_source" where
  "scripted_source zf uf =
     \<lparr>uniform01 = (\<lambda>i. (zf i, Suc i)),
      uniform_box = (\<lambda>lo hi d i. (map2 (\<lambda>l h. l + (h - l) * uf i) lo hi, Suc i))\<rparr>"

definition demo_problem :: problem where
  "demo_problem =
     \<lparr>statespace_lo = [- 5, - 5], statespace_hi = [5, 5], x_init = [1, 0], x_goal = [1, 1],
      obstacles = []\<rparr>"

text \<open>
  The state of the loop before the pass for row \<open>k\<close>: the rows from \<open>k\<close> on are as
  allocated, and every earlier row is either as allocated or linked to an occupied row
  before it.
\<close>

definition tree_inv :: "nat \<Rightarrow> nat \<Rightarrow> state list \<Rightarrow> int list \<Rightarrow> bool" where
  "tree_inv d k V P \<longleftrightarrow>
     length P = length V \<and> 0 < k \<and> k \<le> length V \<and> P ! 0 = - 1 \<and>
     (\<forall>i. k \<le> i \<and> i < length V \<longrightarrow> V ! i = replicate d 0 \<and> P ! i = - 1) \<and>
     (\<forall>i. 0 < i \<and> i < k \<longrightarrow>
        - 1 \<le> P ! i \<and> P ! i < int i \<and>
        (P ! i = - 1 \<longrightarrow> V ! i = replicate d 0) \<and>
        (0 \<le> P ! i \<longrightarrow> occupied P (nat (P ! i))))"

section \<open>Vector arithmetic\<close>

lemma sum_sq_vscale:
  "sum_list (map (\<lambda>u. u * u) (vscale c a)) = c * c * sum_list (map (\<lambda>u. u * u) a)"
  by (induction a) (auto simp: vscale_def algebra_simps)

lemma linalg_norm_vscale: "linalg_norm (vscale c a) = \<bar>c\<bar> * linalg_norm a"
  by (simp add: linalg_norm_def sum_sq_vscale real_sqrt_mult)

lemma vsub_vadd_cancel: "length w = length x \<Longrightarrow> vsub (vadd x w) x = w"
  unfolding vsub_def vadd_def
  by (induction x w rule: list_induct2') auto

lemma length_vsub: "length (vsub a b) = min (length a) (length b)"
  by (simp add: vsub_def)

lemma length_vscale: "length (vscale c a) = length a"
  by (simp add: vscale_def)

lemma linalg_norm_nonneg: "0 \<le> linalg_norm a"
  by (induction a) (auto simp: linalg_norm_def intro!: add_nonneg_nonneg)

lemma linalg_norm_zeros: "linalg_norm (replicate d 0) = 0"
  by (induction d) (auto simp: linalg_norm_def)

section \<open>The nearest neighbour is a row of the tree\<close>

lemma find_nearest_loop_result:
  "GeometricRRT_find_nearest_loop V x i thr nearidx = nearidx \<or>
   (GeometricRRT_find_nearest_loop V x i thr nearidx < length V \<and>
    linalg_norm (V ! GeometricRRT_find_nearest_loop V x i thr nearidx) \<noteq> 0)"
proof (induction V x i thr nearidx rule: GeometricRRT_find_nearest_loop.induct)
  case (1 V x i thr nearidx)
  show ?case
  proof (cases "i < length V")
    case False
    then show ?thesis
      by (subst GeometricRRT_find_nearest_loop.simps) simp
  next
    case inside: True
    show ?thesis
    proof (cases "linalg_norm (V ! i) = 0")
      case True
      with inside "1.IH"(1) show ?thesis
        by (subst (1 2 3) GeometricRRT_find_nearest_loop.simps) simp
    next
      case nonzero: False
      define dist where "dist = linalg_norm (vsub (V ! i) x)"
      show ?thesis
      proof (cases "below dist thr \<and> thr \<noteq> Finite 0")
        case True
        with inside nonzero "1.IH"(2) [OF inside nonzero dist_def]
        show ?thesis
          by (subst (1 2 3) GeometricRRT_find_nearest_loop.simps) (auto simp: dist_def Let_def)
      next
        case False
        with inside nonzero "1.IH"(3) [OF inside nonzero dist_def]
        show ?thesis
          by (subst (1 2 3) GeometricRRT_find_nearest_loop.simps) (auto simp: dist_def Let_def)
      qed
    qed
  qed
qed

lemma find_nearest_result:
  "GeometricRRT_find_nearest V x = 0 \<or>
   (GeometricRRT_find_nearest V x < length V \<and> linalg_norm (V ! GeometricRRT_find_nearest V x) \<noteq> 0)"
  unfolding GeometricRRT_find_nearest_def by (rule find_nearest_loop_result)

section \<open>The walk along the parent links\<close>

lemma soln_path_build_rev_aux:
  "j \<le> length xs \<Longrightarrow> soln_path_build xs j acc = acc @ rev (take j xs)"
proof (induction j arbitrary: acc)
  case 0
  then show ?case by simp
next
  case (Suc j)
  then have "take (Suc j) xs = take j xs @ [xs ! j]"
    by (simp add: take_Suc_conv_app_nth)
  with Suc show ?case by simp
qed

lemma soln_path_build_rev: "j = length xs \<Longrightarrow> soln_path_build xs j [] = rev xs"
  by (simp add: soln_path_build_rev_aux)


lemma soln_path_walk_chain:
  assumes "i < length V" and "i < length P"
    and "\<forall>j\<le>i. - 1 \<le> P ! j \<and> P ! j < int j"
  shows "\<exists>c. soln_path_walk V P (int i) acc = Some (Inr (acc @ map (\<lambda>j. V ! j) c)) \<and>
             c \<noteq> [] \<and> hd c = i \<and> P ! last c = - 1 \<and> last c \<le> i \<and>
             (\<forall>t. Suc t < length c \<longrightarrow> int (c ! Suc t) = P ! (c ! t)) \<and>
             length c \<le> Suc i"
  using assms
proof (induction i arbitrary: acc rule: less_induct)
  case (less i)
  have unfold: "soln_path_walk V P (int i) acc =
      soln_path_walk V P (P ! i) (acc @ [V ! i])"
    using less.prems by (subst soln_path_walk.simps) simp
  from less.prems have par: "- 1 \<le> P ! i" "P ! i < int i" by auto
  show ?case
  proof (cases "P ! i = - 1")
    case True
    have "soln_path_walk V P (int i) acc = Some (Inr (acc @ map (\<lambda>j. V ! j) [i]))"
      unfolding unfold True by (subst soln_path_walk.simps) simp
    with True show ?thesis
      by (intro exI [of _ "[i]"]) simp
  next
    case False
    define p where "p = nat (P ! i)"
    from False par have p: "P ! i = int p" "p < i" by (auto simp: p_def)
    from less.prems p have "p < length V" "p < length P"
      "\<forall>j\<le>p. - 1 \<le> P ! j \<and> P ! j < int j" by auto
    from less.IH [OF p(2) this, of "acc @ [V ! i]"]
    obtain c where c: "soln_path_walk V P (int p) (acc @ [V ! i]) =
          Some (Inr ((acc @ [V ! i]) @ map (\<lambda>j. V ! j) c))"
      "c \<noteq> []" "hd c = p" "P ! last c = - 1" "last c \<le> p"
      "\<forall>t. Suc t < length c \<longrightarrow> int (c ! Suc t) = P ! (c ! t)" "length c \<le> Suc p"
      by blast
    have links: "\<forall>t. Suc t < length (i # c) \<longrightarrow> int ((i # c) ! Suc t) = P ! ((i # c) ! t)"
    proof (intro allI impI)
      fix t assume "Suc t < length (i # c)"
      then show "int ((i # c) ! Suc t) = P ! ((i # c) ! t)"
        using c(2,3,6) p(1) by (cases t) (auto simp: hd_conv_nth)
    qed
    have "soln_path_walk V P (int i) acc = Some (Inr (acc @ map (\<lambda>j. V ! j) (i # c)))"
      unfolding unfold p(1) c(1) by simp
    with c p links show ?thesis
      by (intro exI [of _ "i # c"]) auto
  qed
qed

lemma soln_path_chain:
  assumes "i < length V" and "i < length P"
    and "\<forall>j\<le>i. - 1 \<le> P ! j \<and> P ! j < int j"
  shows "\<exists>idxs. soln_path V P (int i) = Some (Inr (map (\<lambda>j. V ! j) idxs)) \<and>
             idxs \<noteq> [] \<and> last idxs = i \<and> P ! hd idxs = - 1 \<and> hd idxs \<le> i \<and>
             (\<forall>t. Suc t < length idxs \<longrightarrow> P ! (idxs ! Suc t) = int (idxs ! t)) \<and>
             length idxs \<le> Suc i"
proof -
  from soln_path_walk_chain [OF assms, of "[]"]
  obtain c where c: "soln_path_walk V P (int i) [] = Some (Inr (map (\<lambda>j. V ! j) c))"
      "c \<noteq> []" "hd c = i" "P ! last c = - 1" "last c \<le> i"
      "\<forall>t. Suc t < length c \<longrightarrow> int (c ! Suc t) = P ! (c ! t)" "length c \<le> Suc i"
    by auto
  have path: "soln_path V P (int i) = Some (Inr (map (\<lambda>j. V ! j) (rev c)))"
    by (simp add: soln_path_def c(1) soln_path_build_rev rev_map)
  have links: "\<forall>t. Suc t < length (rev c) \<longrightarrow> P ! (rev c ! Suc t) = int (rev c ! t)"
  proof (intro allI impI)
    fix t assume t: "Suc t < length (rev c)"
    then have "Suc (length c - Suc (Suc t)) < length c" by simp
    with c(6) have "int (c ! Suc (length c - Suc (Suc t))) = P ! (c ! (length c - Suc (Suc t)))"
      by blast
    moreover from t have "Suc (length c - Suc (Suc t)) = length c - Suc t" by simp
    ultimately show "P ! (rev c ! Suc t) = int (rev c ! t)"
      using t by (simp add: rev_nth)
  qed
  from c path links show ?thesis
    by (intro exI [of _ "rev c"]) (simp add: hd_rev last_rev)
qed


section \<open>One pass of the loop keeps the tree well formed\<close>

lemma find_nearest_in_tree:
  assumes inv: "tree_inv d k V P"
  shows "GeometricRRT_find_nearest V x < k \<and> occupied P (GeometricRRT_find_nearest V x)"
proof -
  define j where "j = GeometricRRT_find_nearest V x"
  from inv have k: "0 < k" "k \<le> length V" by (auto simp: tree_inv_def)
  have "j < k \<and> occupied P j"
  proof (cases "j = 0")
    case True
    with k show ?thesis by (simp add: occupied_def)
  next
    case False
    with find_nearest_result [of V x]
    have range: "j < length V" and "linalg_norm (V ! j) \<noteq> 0"
      by (auto simp: j_def)
    then have nz: "V ! j \<noteq> replicate d 0"
      using linalg_norm_zeros [of d] by auto
    have "j < k"
    proof (rule ccontr)
      assume "\<not> j < k"
      with inv range have "V ! j = replicate d 0" by (simp add: tree_inv_def)
      with nz show False by simp
    qed
    moreover from inv this False nz have "- 1 \<le> P ! j" "P ! j \<noteq> - 1"
      by (auto simp: tree_inv_def)
    ultimately show ?thesis by (simp add: occupied_def)
  qed
  then show ?thesis by (simp add: j_def)
qed

lemma tree_inv_skip:
  assumes "tree_inv d k V P" and "k < length V"
  shows "tree_inv d (Suc k) V P"
  using assms unfolding tree_inv_def
  by (auto simp: less_Suc_eq)

lemma tree_inv_insert:
  assumes inv: "tree_inv d k V P" and k: "k < length V"
    and j: "j < k" "occupied P j"
  shows "tree_inv d (Suc k) (V[k := xnew]) (P[k := int j])"
proof -
  from inv have len: "length P = length V" and k0: "0 < k" and root: "P ! 0 = - 1"
    and rest: "\<And>i. k \<le> i \<Longrightarrow> i < length V \<Longrightarrow> V ! i = replicate d 0 \<and> P ! i = - 1"
    and before: "\<And>i. 0 < i \<Longrightarrow> i < k \<Longrightarrow>
        - 1 \<le> P ! i \<and> P ! i < int i \<and> (P ! i = - 1 \<longrightarrow> V ! i = replicate d 0) \<and>
        (0 \<le> P ! i \<longrightarrow> occupied P (nat (P ! i)))"
    by (auto simp: tree_inv_def)
  have occ: "occupied (P[k := int j]) a" if "occupied P a" for a
    using that k len by (cases "a = k") (auto simp: occupied_def)
  have new: "\<And>i. 0 < i \<Longrightarrow> i < Suc k \<Longrightarrow>
        - 1 \<le> P[k := int j] ! i \<and> P[k := int j] ! i < int i \<and>
        (P[k := int j] ! i = - 1 \<longrightarrow> V[k := xnew] ! i = replicate d 0) \<and>
        (0 \<le> P[k := int j] ! i \<longrightarrow> occupied (P[k := int j]) (nat (P[k := int j] ! i)))"
  proof -
    fix i assume i: "0 < i" "i < Suc k"
    show "- 1 \<le> P[k := int j] ! i \<and> P[k := int j] ! i < int i \<and>
        (P[k := int j] ! i = - 1 \<longrightarrow> V[k := xnew] ! i = replicate d 0) \<and>
        (0 \<le> P[k := int j] ! i \<longrightarrow> occupied (P[k := int j]) (nat (P[k := int j] ! i)))"
    proof (cases "i = k")
      case True
      with k len j occ [OF j(2)] show ?thesis by simp
    next
      case False
      with i have "i < k" by simp
      with before [OF i(1) this] False occ show ?thesis by auto
    qed
  qed
  show ?thesis
    unfolding tree_inv_def
    using len k k0 root rest new by (auto simp: nth_list_update)
qed

lemma rrt_iteration_unfold:
  "rrt_iteration dyn rs prob eps goal_bias k V P r =
     (let xrand = (if fst (uniform01 rs r) < goal_bias then x_goal prob
                   else fst (uniform_box rs (statespace_lo prob) (statespace_hi prob)
                          (length (x_init prob)) (snd (uniform01 rs r))));
          j = find_nearest dyn V xrand;
          xnew = steer_towards dyn (V ! j) xrand eps
      in (if j < length V then
            if is_free_motion dyn (obstacles prob) (V ! j) xnew then
              if k < length V \<and> k < length P
              then Inr (V[k := xnew], P[k := int j], xnew = x_goal prob)
              else Inl IndexError
            else Inr (V, P, False)
          else Inl IndexError,
          draw_round rs prob r))"
  by (simp add: rrt_iteration_def Let_def split_beta draw_round_def)

lemma rrt_iteration_geometric:
  assumes inv: "tree_inv d k V P" and k: "k < length V"
  shows "\<exists>V' P' reached.
           rrt_iteration (GeometricRRT lli) rs prob eps goal_bias k V P r =
             (Inr (V', P', reached), draw_round rs prob r) \<and>
           tree_inv d (Suc k) V' P' \<and> length V' = length V \<and>
           (\<forall>i<k. V' ! i = V ! i \<and> P' ! i = P ! i) \<and>
           (reached \<longrightarrow> 0 \<le> P' ! k \<and> V' ! k = x_goal prob) \<and>
           (\<not> reached \<and> 0 \<le> P' ! k \<longrightarrow> V' ! k \<noteq> x_goal prob)"
proof -
  define z where "z = fst (uniform01 rs r)"
  define u where "u = fst (uniform_box rs (statespace_lo prob) (statespace_hi prob)
      (length (x_init prob)) (snd (uniform01 rs r)))"
  define xrand where "xrand = (if z < goal_bias then x_goal prob else u)"
  define j where "j = GeometricRRT_find_nearest V xrand"
  define xnew where "xnew = GeometricRRT_steer_towards (V ! j) xrand eps"
  from find_nearest_in_tree [OF inv, of xrand] have j: "j < k" "occupied P j"
    by (simp_all add: j_def)
  from inv have len: "length P = length V" by (simp add: tree_inv_def)
  from inv k have hole: "P ! k = - 1" by (simp add: tree_inv_def)
  show ?thesis
  proof (cases "GeometricRRT_is_free_motion lli (obstacles prob) (V ! j) xnew")
    case True
    have "rrt_iteration (GeometricRRT lli) rs prob eps goal_bias k V P r =
        (if j < length V then
            if GeometricRRT_is_free_motion lli (obstacles prob) (V ! j) xnew then
              if k < length V \<and> k < length P
              then Inr (V[k := xnew], P[k := int j], xnew = x_goal prob)
              else Inl IndexError
            else Inr (V, P, False)
          else Inl IndexError,
          draw_round rs prob r)"
      by (simp add: rrt_iteration_unfold GeometricRRT_def Let_def
          z_def u_def xrand_def j_def xnew_def split del: if_split cong: if_cong)
    with True have "rrt_iteration (GeometricRRT lli) rs prob eps goal_bias k V P r =
        (Inr (V[k := xnew], P[k := int j], xnew = x_goal prob), draw_round rs prob r)"
      using j k len by simp
    with tree_inv_insert [OF inv k j, of xnew] k len show ?thesis
      by (intro exI [of _ "V[k := xnew]"] exI [of _ "P[k := int j]"]
          exI [of _ "xnew = x_goal prob"]) simp
  next
    case False
    have "rrt_iteration (GeometricRRT lli) rs prob eps goal_bias k V P r =
        (if j < length V then
            if GeometricRRT_is_free_motion lli (obstacles prob) (V ! j) xnew then
              if k < length V \<and> k < length P
              then Inr (V[k := xnew], P[k := int j], xnew = x_goal prob)
              else Inl IndexError
            else Inr (V, P, False)
          else Inl IndexError,
          draw_round rs prob r)"
      by (simp add: rrt_iteration_unfold GeometricRRT_def Let_def
          z_def u_def xrand_def j_def xnew_def split del: if_split cong: if_cong)
    with False have "rrt_iteration (GeometricRRT lli) rs prob eps goal_bias k V P r =
        (Inr (V, P, False), draw_round rs prob r)"
      using j k len by simp
    with tree_inv_skip [OF inv k] hole show ?thesis
      by (intro exI [of _ V] exI [of _ P] exI [of _ False]) simp
  qed
qed

section \<open>The loop keeps the tree well formed\<close>

lemma tree_inv_bounds:
  assumes "tree_inv d k V P" and "j < k"
  shows "- 1 \<le> P ! j \<and> P ! j < int j"
  using assms by (cases "j = 0") (auto simp: tree_inv_def)

lemma rrt_iteration_snd:
  "snd (rrt_iteration dyn rs prob eps goal_bias k V P r) = draw_round rs prob r"
  by (simp add: rrt_iteration_unfold Let_def)

lemma rrt_loop_geometric:
  assumes "tree_inv d k V P" and "length V = m"
  shows "\<exists>V' P' succ path k'.
     rrt_loop (GeometricRRT lli) rs prob eps m goal_bias k V P r =
       Some (Inr (V', P', succ, path), (draw_round rs prob ^^ (k' - k)) r) \<and>
     k \<le> k' \<and> tree_inv d k' V' P' \<and> length V' = m \<and>
     (\<forall>i<k. V' ! i = V ! i \<and> P' ! i = P ! i) \<and>
     (succ \<longrightarrow> k < k' \<and> 0 \<le> P' ! (k' - 1) \<and> V' ! (k' - 1) = x_goal prob \<and>
        soln_path V' P' (int (k' - 1)) = Some (Inr path) \<and>
        (\<forall>i. k \<le> i \<and> i < k' - 1 \<and> 0 \<le> P' ! i \<longrightarrow> V' ! i \<noteq> x_goal prob)) \<and>
     (\<not> succ \<longrightarrow> k' = m \<and> path = [] \<and>
        (\<forall>i. k \<le> i \<and> i < m \<and> 0 \<le> P' ! i \<longrightarrow> V' ! i \<noteq> x_goal prob))"
  using assms
proof (induction "m - k" arbitrary: k V P r)
  case 0
  then have "k = m" by (auto simp: tree_inv_def)
  then have "rrt_loop (GeometricRRT lli) rs prob eps m goal_bias k V P r =
      Some (Inr (V, P, False, []), (draw_round rs prob ^^ (k - k)) r)"
    by (subst rrt_loop.simps) simp
  with 0 \<open>k = m\<close> show ?case
    by - (rule exI [of _ V], rule exI [of _ P], rule exI [of _ False], rule exI [of _ "[]"],
        rule exI [of _ k], auto)
next
  case (Suc n)
  then have k: "k < m" "k < length V" by auto
  from rrt_iteration_geometric [OF Suc.prems(1) k(2), of lli rs prob eps goal_bias r]
  obtain V1 P1 reached where it:
      "rrt_iteration (GeometricRRT lli) rs prob eps goal_bias k V P r =
         (Inr (V1, P1, reached), draw_round rs prob r)"
      "tree_inv d (Suc k) V1 P1" "length V1 = length V"
      "\<forall>i<k. V1 ! i = V ! i \<and> P1 ! i = P ! i"
      "reached \<longrightarrow> 0 \<le> P1 ! k \<and> V1 ! k = x_goal prob"
      "\<not> reached \<and> 0 \<le> P1 ! k \<longrightarrow> V1 ! k \<noteq> x_goal prob"
    by blast
  show ?case
  proof (cases reached)
    case True
    from it(2) have len1: "length P1 = length V1" by (simp add: tree_inv_def)
    have "\<forall>j\<le>k. - 1 \<le> P1 ! j \<and> P1 ! j < int j"
      using tree_inv_bounds [OF it(2)] by (simp add: less_Suc_eq_le)
    from soln_path_chain [OF _ _ this, of V1] k it(3) len1
    obtain path where path: "soln_path V1 P1 (int k) = Some (Inr path)"
      by auto
    have "rrt_loop (GeometricRRT lli) rs prob eps m goal_bias k V P r =
        Some (Inr (V1, P1, True, path), (draw_round rs prob ^^ (Suc k - k)) r)"
      using k True it(1) path by (subst rrt_loop.simps) simp
    with it True path Suc.prems(2) show ?thesis
      by - (rule exI [of _ V1], rule exI [of _ P1], rule exI [of _ True],
          rule exI [of _ path], rule exI [of _ "Suc k"], auto)
  next
    case False
    from Suc.hyps(2) k have n: "n = m - Suc k" by simp
    from it(3) Suc.prems(2) have len1: "length V1 = m" by simp
    from Suc.hyps(1) [OF n it(2) len1, of "draw_round rs prob r"]
    obtain V' P' succ path k' where rest:
        "rrt_loop (GeometricRRT lli) rs prob eps m goal_bias (Suc k) V1 P1
           (draw_round rs prob r) =
         Some (Inr (V', P', succ, path), (draw_round rs prob ^^ (k' - Suc k))
           (draw_round rs prob r))"
        "Suc k \<le> k'" "tree_inv d k' V' P'" "length V' = m"
        "\<forall>i<Suc k. V' ! i = V1 ! i \<and> P' ! i = P1 ! i"
        "succ \<longrightarrow> Suc k < k' \<and> 0 \<le> P' ! (k' - 1) \<and> V' ! (k' - 1) = x_goal prob \<and>
           soln_path V' P' (int (k' - 1)) = Some (Inr path) \<and>
           (\<forall>i. Suc k \<le> i \<and> i < k' - 1 \<and> 0 \<le> P' ! i \<longrightarrow> V' ! i \<noteq> x_goal prob)"
        "\<not> succ \<longrightarrow> k' = m \<and> path = [] \<and>
           (\<forall>i. Suc k \<le> i \<and> i < m \<and> 0 \<le> P' ! i \<longrightarrow> V' ! i \<noteq> x_goal prob)"
      by blast
    have gen: "(draw_round rs prob ^^ (k' - Suc k)) (draw_round rs prob r) =
        (draw_round rs prob ^^ (k' - k)) r"
    proof -
      from rest(2) have "k' - k = Suc (k' - Suc k)" by simp
      then show ?thesis by (simp add: funpow_swap1)
    qed
    have loop: "rrt_loop (GeometricRRT lli) rs prob eps m goal_bias k V P r =
        Some (Inr (V', P', succ, path), (draw_round rs prob ^^ (k' - k)) r)"
      using k False it(1) rest(1) gen by (subst rrt_loop.simps) simp
    have rowk: "V' ! k = V1 ! k" "P' ! k = P1 ! k"
      using rest(5) by simp_all
    have nogoal: "0 \<le> P' ! k \<longrightarrow> V' ! k \<noteq> x_goal prob"
      using it(6) False rowk by simp
    have early: "\<forall>i<k. V' ! i = V ! i \<and> P' ! i = P ! i"
      using rest(5) it(4) by simp
    have found: "succ \<longrightarrow> k < k' \<and> 0 \<le> P' ! (k' - 1) \<and> V' ! (k' - 1) = x_goal prob \<and>
           soln_path V' P' (int (k' - 1)) = Some (Inr path) \<and>
           (\<forall>i. k \<le> i \<and> i < k' - 1 \<and> 0 \<le> P' ! i \<longrightarrow> V' ! i \<noteq> x_goal prob)"
    proof (intro impI)
      assume succ
      with rest(6) have a: "Suc k < k'" "0 \<le> P' ! (k' - 1)" "V' ! (k' - 1) = x_goal prob"
        "soln_path V' P' (int (k' - 1)) = Some (Inr path)"
        and b: "\<And>i. Suc k \<le> i \<Longrightarrow> i < k' - 1 \<Longrightarrow> 0 \<le> P' ! i \<Longrightarrow> V' ! i \<noteq> x_goal prob"
        by auto
      have "\<forall>i. k \<le> i \<and> i < k' - 1 \<and> 0 \<le> P' ! i \<longrightarrow> V' ! i \<noteq> x_goal prob"
      proof (intro allI impI)
        fix i assume i: "k \<le> i \<and> i < k' - 1 \<and> 0 \<le> P' ! i"
        show "V' ! i \<noteq> x_goal prob"
        proof (cases "i = k")
          case True
          with i nogoal show ?thesis by simp
        next
          case False
          with i b [of i] show ?thesis by simp
        qed
      qed
      with a show "k < k' \<and> 0 \<le> P' ! (k' - 1) \<and> V' ! (k' - 1) = x_goal prob \<and>
           soln_path V' P' (int (k' - 1)) = Some (Inr path) \<and>
           (\<forall>i. k \<le> i \<and> i < k' - 1 \<and> 0 \<le> P' ! i \<longrightarrow> V' ! i \<noteq> x_goal prob)"
        by simp
    qed
    have spent: "\<not> succ \<longrightarrow> k' = m \<and> path = [] \<and>
           (\<forall>i. k \<le> i \<and> i < m \<and> 0 \<le> P' ! i \<longrightarrow> V' ! i \<noteq> x_goal prob)"
    proof (intro impI)
      assume "\<not> succ"
      with rest(7) have a: "k' = m" "path = []"
        and b: "\<And>i. Suc k \<le> i \<Longrightarrow> i < m \<Longrightarrow> 0 \<le> P' ! i \<Longrightarrow> V' ! i \<noteq> x_goal prob"
        by auto
      have "\<forall>i. k \<le> i \<and> i < m \<and> 0 \<le> P' ! i \<longrightarrow> V' ! i \<noteq> x_goal prob"
      proof (intro allI impI)
        fix i assume i: "k \<le> i \<and> i < m \<and> 0 \<le> P' ! i"
        show "V' ! i \<noteq> x_goal prob"
        proof (cases "i = k")
          case True
          with i nogoal show ?thesis by simp
        next
          case False
          with i b [of i] show ?thesis by simp
        qed
      qed
      with a show "k' = m \<and> path = [] \<and>
           (\<forall>i. k \<le> i \<and> i < m \<and> 0 \<le> P' ! i \<longrightarrow> V' ! i \<noteq> x_goal prob)"
        by simp
    qed
    from rest(2) have "k \<le> k'" by simp
    with loop rest(3,4) early found spent show ?thesis
      by - (rule exI [of _ V'], rule exI [of _ P'], rule exI [of _ succ],
          rule exI [of _ path], rule exI [of _ k'], blast)
  qed
qed

section \<open>The whole run of the holonomic planner\<close>

lemma initial_tree_inv:
  assumes "0 < m"
  shows "tree_inv d 1 ((replicate m (replicate d 0))[0 := x0]) (replicate m (- 1))"
  using assms by (auto simp: tree_inv_def nth_list_update)

lemma solve_geometric:
  assumes "1 \<le> max_iters"
  shows "\<exists>res k'.
     solve (GeometricRRT lli) rs prob eps max_iters goal_bias r =
       Some (Inr res, (draw_round rs prob ^^ (k' - 1)) r) \<and>
     1 \<le> k' \<and> tree_inv (length (x_init prob)) k' (tree_V res) (tree_P res) \<and>
     length (tree_V res) = nat max_iters \<and> tree_n res = 1 \<and>
     (success res \<longrightarrow> 1 < k' \<and> 0 \<le> tree_P res ! (k' - 1) \<and>
        tree_V res ! (k' - 1) = x_goal prob \<and>
        soln_path (tree_V res) (tree_P res) (int (k' - 1)) = Some (Inr (solution_path res)) \<and>
        (\<forall>i. 1 \<le> i \<and> i < k' - 1 \<and> 0 \<le> tree_P res ! i \<longrightarrow>
           tree_V res ! i \<noteq> x_goal prob)) \<and>
     (\<not> success res \<longrightarrow> k' = nat max_iters \<and> solution_path res = [] \<and>
        (\<forall>i. 1 \<le> i \<and> i < nat max_iters \<and> 0 \<le> tree_P res ! i \<longrightarrow>
           tree_V res ! i \<noteq> x_goal prob))"
proof -
  define m where "m = nat max_iters"
  define d where "d = length (x_init prob)"
  define V0 where "V0 = (replicate m (replicate d (0 :: real)))[0 := x_init prob]"
  define P0 where "P0 = replicate m (- 1 :: int)"
  from assms have m: "0 < m" by (simp add: m_def)
  have inv0: "tree_inv d 1 V0 P0"
    unfolding V0_def P0_def using m by (rule initial_tree_inv)
  have len0: "length V0 = m" by (simp add: V0_def)
  from rrt_loop_geometric [OF inv0 len0, of lli rs prob eps goal_bias r]
  obtain V' P' succ path k' where loop:
      "rrt_loop (GeometricRRT lli) rs prob eps m goal_bias 1 V0 P0 r =
         Some (Inr (V', P', succ, path), (draw_round rs prob ^^ (k' - 1)) r)"
      "1 \<le> k'" "tree_inv d k' V' P'" "length V' = m"
      "succ \<longrightarrow> 1 < k' \<and> 0 \<le> P' ! (k' - 1) \<and> V' ! (k' - 1) = x_goal prob \<and>
         soln_path V' P' (int (k' - 1)) = Some (Inr path) \<and>
         (\<forall>i. 1 \<le> i \<and> i < k' - 1 \<and> 0 \<le> P' ! i \<longrightarrow> V' ! i \<noteq> x_goal prob)"
      "\<not> succ \<longrightarrow> k' = m \<and> path = [] \<and>
         (\<forall>i. 1 \<le> i \<and> i < m \<and> 0 \<le> P' ! i \<longrightarrow> V' ! i \<noteq> x_goal prob)"
    by blast
  define res where "res = \<lparr>tree_V = V', tree_P = P', tree_n = 1, success = succ,
      solution_path = path\<rparr>"
  have "solve (GeometricRRT lli) rs prob eps max_iters goal_bias r =
      Some (Inr res, (draw_round rs prob ^^ (k' - 1)) r)"
    using assms loop(1)
    by (simp add: solve_def Let_def res_def m_def d_def V0_def P0_def)
  moreover have "tree_V res = V'" "tree_P res = P'" "tree_n res = 1" "success res = succ"
    "solution_path res = path"
    by (simp_all add: res_def)
  ultimately show ?thesis
    using loop(2-6) unfolding m_def d_def
    by - (rule exI [of _ res], rule exI [of _ k'], simp)
qed

lemma solve_tree_n:
  assumes "solve dyn rs prob eps max_iters goal_bias r = Some (Inr res, r')"
  shows "tree_n res = 1"
  using assms
  by (auto simp: solve_def Let_def split: if_splits option.splits sum.splits prod.splits)

lemma well_shaped_demo:
  "well_shaped (scripted_source zf uf) demo_problem"
  by (simp add: well_shaped_def scripted_source_def demo_problem_def)

section \<open>The run depends on the generator through its draws only\<close>

lemma rrt_iteration_same_draws:
  assumes "fst (uniform01 rs r) = fst (uniform01 rs' r')"
    and "fst (uniform_box rs (statespace_lo prob) (statespace_hi prob) (length (x_init prob))
            (snd (uniform01 rs r))) =
         fst (uniform_box rs' (statespace_lo prob) (statespace_hi prob) (length (x_init prob))
            (snd (uniform01 rs' r')))"
  shows "fst (rrt_iteration dyn rs prob eps goal_bias k V P r) =
         fst (rrt_iteration dyn rs' prob eps goal_bias k V P r')"
  using assms by (simp add: rrt_iteration_unfold Let_def)

lemma rrt_loop_same_draws:
  assumes "draws rs prob (m - k) r = draws rs' prob (m - k) r'"
  shows "map_option fst (rrt_loop dyn rs prob eps m goal_bias k V P r) =
         map_option fst (rrt_loop dyn rs' prob eps m goal_bias k V P r')"
  using assms
proof (induction "m - k" arbitrary: k V P r r')
  case 0
  then have "\<not> k < m" by simp
  then show ?case
    by (subst (1 2) rrt_loop.simps) simp
next
  case (Suc n)
  then have k: "k < m" and n: "n = m - Suc k" and mk: "m - k = Suc (m - Suc k)"
    by auto
  from Suc.prems have heads:
      "fst (uniform01 rs r) = fst (uniform01 rs' r')"
      "fst (uniform_box rs (statespace_lo prob) (statespace_hi prob) (length (x_init prob))
            (snd (uniform01 rs r))) =
       fst (uniform_box rs' (statespace_lo prob) (statespace_hi prob) (length (x_init prob))
            (snd (uniform01 rs' r')))"
    and tails: "draws rs prob (m - Suc k) (draw_round rs prob r) =
       draws rs' prob (m - Suc k) (draw_round rs' prob r')"
    unfolding mk by simp_all
  define out where "out = fst (rrt_iteration dyn rs prob eps goal_bias k V P r)"
  have it: "rrt_iteration dyn rs prob eps goal_bias k V P r = (out, draw_round rs prob r)"
    by (simp add: out_def prod_eq_iff rrt_iteration_snd)
  have it': "rrt_iteration dyn rs' prob eps goal_bias k V P r' = (out, draw_round rs' prob r')"
    using rrt_iteration_same_draws [OF heads, of dyn eps goal_bias k V P]
    by (simp add: out_def prod_eq_iff rrt_iteration_snd)
  show ?case
  proof (cases out)
    case (Inl e)
    with k it it' show ?thesis
      by (subst (1 2) rrt_loop.simps) simp
  next
    case (Inr t)
    obtain V1 P1 reached where t: "t = (V1, P1, reached)"
      by (cases t) auto
    show ?thesis
    proof (cases reached)
      case True
      with k it it' Inr t show ?thesis
        by (subst (1 2) rrt_loop.simps) (simp split: option.splits sum.splits)
    next
      case False
      from Suc.hyps(1) [OF n, of "draw_round rs prob r" "draw_round rs' prob r'" V1 P1] tails
      have "map_option fst (rrt_loop dyn rs prob eps m goal_bias (Suc k) V1 P1
            (draw_round rs prob r)) =
          map_option fst (rrt_loop dyn rs' prob eps m goal_bias (Suc k) V1 P1
            (draw_round rs' prob r'))"
        by simp
      with k it it' Inr t False show ?thesis
        by (subst (1 2) rrt_loop.simps) simp
    qed
  qed
qed

section \<open>Nearest neighbour\<close>

text \<open>
  Claim C1: the nearest-neighbour query returns the occupied row that minimises the
  distance to the query, lowest index first, whether or not an occupied row is the
  all-zero vector. The code tells an empty row by its zero norm, so a root at the origin
  is skipped: in the tree whose occupied rows are \<open>[0, 0]\<close> and \<open>[3, 4]\<close>, with one row
  still empty, the query \<open>[0, 1]\<close> is nearer to row 0 and the code answers row 1.
\<close>

theorem find_nearest_skips_origin_root:
  "GeometricRRT_find_nearest [[0, 0], [3, 4], [0, 0]] [0, 1] = 1 \<and>
   linalg_norm (vsub [0, 0] [0, 1]) < linalg_norm (vsub [3, 4] [0, 1])"
  by (simp add: GeometricRRT_find_nearest_def GeometricRRT_find_nearest_loop.simps
      linalg_norm_def vsub_def Let_def)

text \<open>
  The Dubins variant skips the rows at the origin in the same way, and its running
  minimum starts at 10000 instead of infinity, so rows at that distance or beyond never
  replace row 0.
\<close>

lemma DubinsRRT_find_nearest_skips_origin_root:
  "DubinsRRT_find_nearest (\<lambda>a b rho. if a = (0, 0, 0) then 1 else 5) 1
     [(0, 0, 0), (3, 4, 0), (0, 0, 0)] (0, 1, 0) = 1"
  by (simp add: DubinsRRT_find_nearest_def DubinsRRT_find_nearest_loop.simps Let_def)

lemma DubinsRRT_find_nearest_far_rows:
  "DubinsRRT_find_nearest (\<lambda>a b rho. if a = (1, 0, 0) then 20000 else 10000) 1
     [(1, 0, 0), (2, 0, 0)] (0, 1, 0) = 0"
  by (simp add: DubinsRRT_find_nearest_def DubinsRRT_find_nearest_loop.simps Let_def)

section \<open>Steering\<close>

lemma steer_towards_real_arith:
  "GeometricRRT_steer_towards_in real_arith x y eps = GeometricRRT_steer_towards x y eps"
  by (simp add: GeometricRRT_steer_towards_in_def GeometricRRT_steer_towards_def
      real_arith_def Let_def)





text \<open>
  In exact arithmetic, with \<open>eps > 0\<close> and two states of one dimension, the point
  returned when the norm is not below \<open>eps\<close> lies at distance \<open>eps\<close> from \<open>x\<close> on the
  segment from \<open>x\<close> to \<open>y\<close>. This is a fact of the formula over the reals, not of its
  float64 evaluation.
\<close>

lemma steer_towards_exact_arithmetic:
  assumes "0 < eps" and "length x = length y"
  shows "(linalg_norm (vsub y x) < eps \<longrightarrow> GeometricRRT_steer_towards x y eps = y) \<and>
         (\<not> linalg_norm (vsub y x) < eps \<longrightarrow>
            linalg_norm (vsub (GeometricRRT_steer_towards x y eps) x) = eps \<and>
            (\<exists>t. 0 < t \<and> t \<le> 1 \<and>
               GeometricRRT_steer_towards x y eps = vadd x (vscale t (vsub y x))))"
proof (intro conjI impI)
  assume "linalg_norm (vsub y x) < eps"
  then show "GeometricRRT_steer_towards x y eps = y"
    by (simp add: GeometricRRT_steer_towards_def)
next
  assume far: "\<not> linalg_norm (vsub y x) < eps"
  define mag where "mag = linalg_norm (vsub y x)"
  from far assms have mag: "eps \<le> mag" "0 < mag" by (auto simp: mag_def)
  have st: "GeometricRRT_steer_towards x y eps = vadd x (vscale (eps / mag) (vsub y x))"
    using far by (simp add: GeometricRRT_steer_towards_def mag_def)
  have len: "length (vscale (eps / mag) (vsub y x)) = length x"
    using assms by (simp add: length_vscale length_vsub)
  have "linalg_norm (vsub (GeometricRRT_steer_towards x y eps) x) =
          linalg_norm (vscale (eps / mag) (vsub y x))"
    by (simp only: st vsub_vadd_cancel [OF len])
  also have "\<dots> = \<bar>eps / mag\<bar> * mag"
    by (simp only: linalg_norm_vscale mag_def)
  also have "\<dots> = eps" using mag assms by simp
  finally show "linalg_norm (vsub (GeometricRRT_steer_towards x y eps) x) = eps" .
  show "\<exists>t. 0 < t \<and> t \<le> 1 \<and>
     GeometricRRT_steer_towards x y eps = vadd x (vscale t (vsub y x))"
    using st mag assms by (intro exI [of _ "eps / mag"]) simp
qed

section \<open>Collision test\<close>

text \<open>
  Claim C8: for the holonomic model, \<^verbatim>\<open>is_free_motion\<close> is false exactly when the
  segment from \<open>x1\<close> to \<open>x2\<close> intersects at least one obstacle, for whatever the
  segment intersection test \<open>lli\<close> answers.
\<close>

theorem is_free_motion_iff_no_crossing:
  "GeometricRRT_is_free_motion lli obs x1 x2 \<longleftrightarrow>
     \<not> (\<exists>line \<in> set obs. lli (x1, x2) line)"
  by (induction obs) auto

section \<open>Path reconstruction from a well-formed tree\<close>

text \<open>
  Claim C6: in a tree of \<open>n\<close> rows where the root has parent \<open>-1\<close> and every other row
  has its parent strictly before it, \<^verbatim>\<open>soln_path\<close> from a row \<open>i < n\<close> returns, and
  yields the states of the rows from the root to row \<open>i\<close>: the first is row 0, the last is
  row \<open>i\<close>, each row is the parent of the next, and there are at most \<open>n\<close> of them, one
  for each turn of the loop.
\<close>

theorem soln_path_root_to_node:
  assumes "n \<le> length V" and "n \<le> length P" and "i < n" and "P ! 0 = - 1"
    and "\<forall>j. 0 < j \<and> j < n \<longrightarrow> 0 \<le> P ! j \<and> P ! j < int j"
  shows "\<exists>idxs. soln_path V P (int i) = Some (Inr (map (\<lambda>j. V ! j) idxs)) \<and>
           idxs \<noteq> [] \<and> hd idxs = 0 \<and> last idxs = i \<and>
           (\<forall>t. Suc t < length idxs \<longrightarrow> P ! (idxs ! Suc t) = int (idxs ! t)) \<and>
           length idxs \<le> n"
proof -
  have bounds: "\<forall>j\<le>i. - 1 \<le> P ! j \<and> P ! j < int j"
  proof (intro allI impI)
    fix j assume "j \<le> i"
    with assms(3,4,5) show "- 1 \<le> P ! j \<and> P ! j < int j"
      by (cases "j = 0") auto
  qed
  from assms have "i < length V" "i < length P" by auto
  from soln_path_chain [OF this bounds]
  obtain idxs where idxs: "soln_path V P (int i) = Some (Inr (map (\<lambda>j. V ! j) idxs))"
      "idxs \<noteq> []" "last idxs = i" "P ! hd idxs = - 1" "hd idxs \<le> i"
      "\<forall>t. Suc t < length idxs \<longrightarrow> P ! (idxs ! Suc t) = int (idxs ! t)"
      "length idxs \<le> Suc i"
    by blast
  have "hd idxs = 0"
  proof (rule ccontr)
    assume "hd idxs \<noteq> 0"
    with idxs(5) assms(3,5) have "0 \<le> P ! hd idxs" by simp
    with idxs(4) show False by simp
  qed
  with idxs assms(3) show ?thesis
    by (intro exI [of _ idxs]) simp
qed

theorem soln_path_root_to_node_witness:
  "3 \<le> length [[0, 0], [1, 0], [2, 0 :: real]] \<and> 3 \<le> length [- 1, 0, 1 :: int] \<and>
   (2 :: nat) < 3 \<and> [- 1, 0, 1 :: int] ! 0 = - 1 \<and>
   (\<exists>idxs. soln_path [[0, 0], [1, 0], [2, 0]] [- 1, 0, 1] (int 2) =
        Some (Inr (map (\<lambda>j. [[0, 0], [1, 0], [2, 0]] ! j) idxs)) \<and>
      idxs \<noteq> [] \<and> hd idxs = 0 \<and> last idxs = 2 \<and>
      (\<forall>t. Suc t < length idxs \<longrightarrow> [- 1, 0, 1] ! (idxs ! Suc t) = int (idxs ! t)) \<and>
      length idxs \<le> 3)"
proof -
  have links: "\<forall>j. 0 < j \<and> j < 3 \<longrightarrow> 0 \<le> [- 1, 0, 1 :: int] ! j \<and> [- 1, 0, 1 :: int] ! j < int j"
    by (auto simp: nth_Cons' less_Suc_eq numeral_3_eq_3)
  show ?thesis
    using soln_path_root_to_node [of 3 "[[0, 0], [1, 0], [2, 0]]" "[- 1, 0, 1]" 2, OF _ _ _ _ links]
    by simp
qed

section \<open>Draws of one iteration\<close>

text \<open>
  Claim C10: each pass of the loop takes one coin and then one box sample from the
  generator, whatever the goal bias and whatever the coin shows: the generator after
  the pass is the one left by the box draw made after the coin draw.
\<close>

theorem rrt_iteration_draws:
  "snd (rrt_iteration dyn rs prob eps goal_bias k V P r) =
     snd (uniform_box rs (statespace_lo prob) (statespace_hi prob) (length (x_init prob))
            (snd (uniform01 rs r)))"
  by (simp add: rrt_iteration_unfold Let_def draw_round_def)

section \<open>The size counter\<close>

text \<open>
  Claim C2: during \<^verbatim>\<open>solve\<close> the counter \<open>n\<close> equals the number of occupied rows: 1 for
  the root, one more after every insertion, never above \<^verbatim>\<open>max_iters\<close>. The code assigns
  \<open>n = 1\<close> and never again: in the run below the goal is inserted at row 1, the tree has
  two occupied rows, and \<open>n\<close> is still 1.
\<close>

theorem solve_counter_n_stays_one:
  "solve (GeometricRRT (\<lambda>a b. False)) (scripted_source (\<lambda>i. 0) (\<lambda>i. 1 / 2))
     demo_problem 2 2 1 0 =
     Some (Inr \<lparr>tree_V = [[1, 0], [1, 1]], tree_P = [- 1, 0], tree_n = 1, success = True,
                 solution_path = [[1, 0], [1, 1]]\<rparr>, 2)"
  by (simp add: solve_def rrt_loop.simps rrt_iteration_def GeometricRRT_def scripted_source_def
      demo_problem_def GeometricRRT_find_nearest_def GeometricRRT_find_nearest_loop.simps
      GeometricRRT_steer_towards_def linalg_norm_def vsub_def soln_path_def
      soln_path_walk.simps Let_def numeral_2_eq_2)

section \<open>Configuration\<close>

text \<open>
  Claim C3 says that \<^verbatim>\<open>solve\<close> fails before any draw when \<open>eps \<le> 0\<close> or the goal bias
  is outside \<open>[0, 1]\<close>. It does not: with \<open>eps = -1\<close> and a goal bias of 2 the run below
  makes its two draws, steers away from the goal, inserts the state and returns.
\<close>

theorem solve_accepts_bad_configuration:
  "solve (GeometricRRT (\<lambda>a b. False)) (scripted_source (\<lambda>i. 0) (\<lambda>i. 1 / 2))
     demo_problem (- 1) 2 2 0 =
     Some (Inr \<lparr>tree_V = [[1, 0], [1, - 1]], tree_P = [- 1, 0], tree_n = 1, success = False,
                 solution_path = []\<rparr>, 2)"
  by (simp add: solve_def rrt_loop.simps rrt_iteration_def GeometricRRT_def scripted_source_def
      demo_problem_def GeometricRRT_find_nearest_def GeometricRRT_find_nearest_loop.simps
      GeometricRRT_steer_towards_def linalg_norm_def vsub_def vadd_def vscale_def soln_path_def
      soln_path_walk.simps Let_def numeral_2_eq_2)

text \<open>
  Claim C3, as amended: \<^verbatim>\<open>solve\<close> checks nothing about \<open>eps\<close> or the goal bias. It
  fails, with the generator untouched, exactly when \<^verbatim>\<open>max_iters\<close> is below 1, where
  allocating the tree or writing the root raises; with at least one row and vectors of
  one dimension the holonomic planner returns a tree for every \<open>eps\<close> and every goal
  bias.
\<close>

theorem solve_fails_only_without_rows:
  "(max_iters < 1 \<longrightarrow>
      (\<exists>e. solve dyn rs prob eps max_iters goal_bias r = Some (Inl e, r))) \<and>
   (1 \<le> max_iters \<and> well_shaped rs prob \<longrightarrow>
      (\<exists>res r'. solve (GeometricRRT lli) rs prob eps max_iters goal_bias r =
         Some (Inr res, r')))"
proof (intro conjI impI)
  assume "max_iters < 1"
  then show "\<exists>e. solve dyn rs prob eps max_iters goal_bias r = Some (Inl e, r)"
    by (cases "max_iters < 0") (simp_all add: solve_def)
next
  assume "1 \<le> max_iters \<and> well_shaped rs prob"
  then have "1 \<le> max_iters" by simp
  from solve_geometric [OF this, of lli rs prob eps goal_bias r]
  show "\<exists>res r'. solve (GeometricRRT lli) rs prob eps max_iters goal_bias r =
      Some (Inr res, r')"
    by blast
qed

theorem solve_fails_only_without_rows_witness:
  "(0 :: int) < 1 \<and>
   (\<exists>e. solve (GeometricRRT (\<lambda>a b. False)) (scripted_source (\<lambda>i. 0) (\<lambda>i. 1 / 2))
      demo_problem (- 1) 0 2 0 = Some (Inl e, 0)) \<and>
   (1 :: int) \<le> 2 \<and> well_shaped (scripted_source (\<lambda>i. 0) (\<lambda>i. 1 / 2)) demo_problem \<and>
   (\<exists>res r'. solve (GeometricRRT (\<lambda>a b. False)) (scripted_source (\<lambda>i. 0) (\<lambda>i. 1 / 2))
      demo_problem (- 1) 2 2 0 = Some (Inr res, r'))"
  using solve_fails_only_without_rows [of 0 "GeometricRRT (\<lambda>a b. False)"
      "scripted_source (\<lambda>i. 0) (\<lambda>i. 1 / 2)" demo_problem "- 1" 2 0 "\<lambda>a b. False"]
    solve_fails_only_without_rows [of 2 "GeometricRRT (\<lambda>a b. False)"
      "scripted_source (\<lambda>i. 0) (\<lambda>i. 1 / 2)" demo_problem "- 1" 2 0 "\<lambda>a b. False"]
    well_shaped_demo [of "\<lambda>i. 0" "\<lambda>i. 1 / 2"]
  by simp

section \<open>Parent links\<close>



section \<open>Success and exhaustion\<close>



section \<open>Reproducibility\<close>

text \<open>
  Claim C9: two runs of \<^verbatim>\<open>solve\<close> with the same seed and the same configuration give
  the same tree and the same outcome. The seed fixes the values the generator delivers;
  whenever two generators deliver the same coins and box samples over the
  \<^verbatim>\<open>max_iters - 1\<close> passes, the two runs agree on the whole result: the tree, the
  counter, the success flag and the solution path, or the error, or not returning.
\<close>

theorem solve_reproducible:
  assumes "draws rs prob (nat max_iters - 1) r = draws rs' prob (nat max_iters - 1) r'"
  shows "map_option fst (solve dyn rs prob eps max_iters goal_bias r) =
         map_option fst (solve dyn rs' prob eps max_iters goal_bias r')"
proof -
  define V0 where "V0 = (replicate (nat max_iters)
      (replicate (length (x_init prob)) (0 :: real)))[0 := x_init prob]"
  define P0 where "P0 = replicate (nat max_iters) (- 1 :: int)"
  from rrt_loop_same_draws [OF assms, of dyn eps goal_bias V0 P0]
  have "map_option fst (rrt_loop dyn rs prob eps (nat max_iters) goal_bias 1 V0 P0 r) =
      map_option fst (rrt_loop dyn rs' prob eps (nat max_iters) goal_bias 1 V0 P0 r')" .
  then show ?thesis
    by (auto simp: solve_def Let_def V0_def P0_def
        split: option.splits sum.splits prod.splits)
qed

theorem solve_reproducible_witness:
  "draws (scripted_source (\<lambda>i. 0) (\<lambda>i. 1 / 2)) demo_problem (nat 2 - 1) 0 =
     draws (scripted_source (\<lambda>i. if i < 2 then 0 else 1) (\<lambda>i. 1 / 2)) demo_problem
       (nat 2 - 1) 0 \<and>
   map_option fst (solve (GeometricRRT (\<lambda>a b. False)) (scripted_source (\<lambda>i. 0) (\<lambda>i. 1 / 2))
       demo_problem 2 2 1 0) =
     map_option fst (solve (GeometricRRT (\<lambda>a b. False))
       (scripted_source (\<lambda>i. if i < 2 then 0 else 1) (\<lambda>i. 1 / 2)) demo_problem 2 2 1 0)"
proof -
  have same: "draws (scripted_source (\<lambda>i. 0) (\<lambda>i. 1 / 2)) demo_problem (nat 2 - 1) 0 =
     draws (scripted_source (\<lambda>i. if i < 2 then 0 else 1) (\<lambda>i. 1 / 2)) demo_problem
       (nat 2 - 1) 0"
    by (simp add: scripted_source_def demo_problem_def draw_round_def)
  show ?thesis
    using same solve_reproducible [OF same, of "GeometricRRT (\<lambda>a b. False)" 2 1]
    by simp
qed

end
